theory Spec2Isabelle
  imports Main
begin

section \<open>Text primitives of the Python source\<close>

text \<open>
  A Python \<open>str\<close> is modelled as a \<open>string\<close>, one \<open>char\<close> per code point; the
  model therefore covers the texts whose code points are below 256 (Latin-1).

  \<open>is_space\<close> is the class \<open>\s\<close> of a Python \<open>str\<close> pattern on these code points:
  TAB, LF, VT, FF, CR, the separators 0x1C..0x1F, SPACE, NEL (0x85) and NBSP (0xA0).
\<close>

definition is_space :: "char \<Rightarrow> bool" where
  "is_space c \<longleftrightarrow> c \<in> set [CHR 0x09, CHR 0x0A, CHR 0x0B, CHR 0x0C, CHR 0x0D,
                           CHR 0x1C, CHR 0x1D, CHR 0x1E, CHR 0x1F, CHR 0x20,
                           CHR 0x85, CHR 0xA0]"

text \<open>\<open>str.lower()\<close> on one code point below 256: A..Z and the Latin-1 capitals
  0xC0..0xDE (without the multiplication sign 0xD7) move up by 32.\<close>

definition py_lower_char :: "char \<Rightarrow> char" where
  "py_lower_char c =
     (let n = (of_char c :: nat)
      in if (65 \<le> n \<and> n \<le> 90) \<or> (192 \<le> n \<and> n \<le> 222 \<and> n \<noteq> 215)
         then char_of (n + 32) else c)"

definition lower :: "string \<Rightarrow> string" where
  "lower s = map py_lower_char s"

text \<open>\<open>needle in haystack\<close> on strings.\<close>

primrec starts_with :: "string \<Rightarrow> string \<Rightarrow> bool" where
  "starts_with [] s = True"
| "starts_with (c # cs) s = (case s of [] \<Rightarrow> False | d # ds \<Rightarrow> c = d \<and> starts_with cs ds)"

primrec str_in :: "string \<Rightarrow> string \<Rightarrow> bool" where
  "str_in needle [] = (needle = [])"
| "str_in needle (c # cs) = (starts_with needle (c # cs) \<or> str_in needle cs)"

text \<open>\<open>s.rstrip(chars)\<close>: drop the trailing characters that belong to \<open>chars\<close>.\<close>

definition rstrip :: "string \<Rightarrow> string \<Rightarrow> string" where
  "rstrip chars s = rev (dropWhile (\<lambda>c. c \<in> set chars) (rev s))"

text \<open>\<open>u.split("#")[0]\<close>: the text before the first \<open>#\<close>, the whole text when
  there is none.\<close>

definition split_hash_0 :: "string \<Rightarrow> string" where
  "split_hash_0 u = takeWhile (\<lambda>c. c \<noteq> CHR ''#'') u"

section \<open>utils/formatting.py: the URL extractor\<close>

text \<open>
  \<open>_URL_RE = re.compile(r"(https?://[^\s)]+)", flags=re.IGNORECASE)\<close>.

  \<open>scheme_len s\<close> is the length of the part of \<open>s\<close> matched by \<open>https?://\<close> at the
  start of \<open>s\<close>: the four letters in either case, an optional \<open>s\<close> in either case,
  then \<open>://\<close>. The two alternatives exclude each other (after \<open>http\<close> the next
  character is either an \<open>s\<close> or a colon), so backtracking over \<open>s?\<close> never
  succeeds where the first attempt failed.
\<close>

fun scheme_len :: "string \<Rightarrow> nat option" where
  "scheme_len (c1 # c2 # c3 # c4 # rest) =
     (if (c1 = CHR ''h'' \<or> c1 = CHR ''H'') \<and> (c2 = CHR ''t'' \<or> c2 = CHR ''T'') \<and>
         (c3 = CHR ''t'' \<or> c3 = CHR ''T'') \<and> (c4 = CHR ''p'' \<or> c4 = CHR ''P'')
      then (case rest of
              [] \<Rightarrow> None
            | c5 # rest' \<Rightarrow>
                if (c5 = CHR ''s'' \<or> c5 = CHR ''S'') \<and> take 3 rest' = ''://'' then Some 8
                else if take 3 rest = ''://'' then Some 7
                else None)
      else None)"
| "scheme_len _ = None"

text \<open>The class \<open>[^\s)]\<close>.\<close>

definition url_char :: "char \<Rightarrow> bool" where
  "url_char c \<longleftrightarrow> \<not> is_space c \<and> c \<noteq> CHR '')''"

text \<open>The match of the pattern anchored at the start of \<open>s\<close>, if there is one:
  the scheme, then the longest non-empty run of \<open>[^\s)]\<close>.\<close>

definition match_at :: "string \<Rightarrow> string option" where
  "match_at s =
     (case scheme_len s of
        None \<Rightarrow> None
      | Some k \<Rightarrow>
          (let body = takeWhile url_char (drop k s)
           in if body = [] then None else Some (take k s @ body)))"

text \<open>
  \<open>_URL_RE.finditer(text)\<close>: the non-overlapping matches from left to right, each
  with its start offset. The search moves one character on where no match starts,
  and resumes at the end of a match.
\<close>

function finditer :: "nat \<Rightarrow> string \<Rightarrow> (nat \<times> string) list" where
  "finditer pos [] = []"
| "finditer pos (c # cs) =
     (case match_at (c # cs) of
        None \<Rightarrow> finditer (Suc pos) cs
      | Some m \<Rightarrow> (pos, m) # finditer (pos + length m) (drop (length m) (c # cs)))"
  by pat_completeness auto
termination
proof (relation "measure (\<lambda>(pos, s). length s)")
  show "wf (measure (\<lambda>(pos, s). length s))" by simp
next
  fix pos :: nat and c :: char and cs :: string
  show "((Suc pos, cs), (pos, c # cs)) \<in> measure (\<lambda>(pos, s). length s)" by simp
next
  fix pos :: nat and c :: char and cs :: string and m :: string
  assume "match_at (c # cs) = Some m"
  then have "m \<noteq> []"
    by (auto simp: match_at_def Let_def split: option.splits if_splits)
  then have "0 < length m" by simp
  then show "((pos + length m, drop (length m) (c # cs)), (pos, c # cs))
               \<in> measure (\<lambda>(pos, s). length s)"
    by simp
qed

text \<open>
  The body of the loop of \<open>extract_urls\<close>, on the state \<open>(seen, urls)\<close>:
  \<open>url = m.group(1).rstrip(".,);]}")\<close>, appended when it is not in \<open>seen\<close>.
\<close>

definition extract_step :: "string \<Rightarrow> string set \<times> string list \<Rightarrow> string set \<times> string list" where
  "extract_step m st =
     (let url = rstrip ''.,);]}'' m
      in if url \<notin> fst st then (insert url (fst st), snd st @ [url]) else st)"

text \<open>\<open>extract_urls(text)\<close>; the argument may be \<open>None\<close>, which \<open>not text\<close> treats as
  the empty string.\<close>

definition extract_urls :: "string option \<Rightarrow> string list" where
  "extract_urls text =
     (case text of
        None \<Rightarrow> []
      | Some t \<Rightarrow>
          if t = [] then []
          else snd (fold extract_step (map snd (finditer 0 t)) ({}, [])))"

section \<open>utils/formatting.py: the tool-output collector\<close>

text \<open>
  The value of the \<open>content\<close> attribute, which may be of any type: \<open>Falsy\<close> stands for
  an absent attribute (\<open>getattr\<close> then gives the empty string) and for every value
  whose truth value is false (\<open>None\<close>, the empty string, an empty list);
  \<open>Truthy s\<close> stands for a value whose truth value is true, \<open>s\<close> being its \<open>str\<close>.
\<close>

datatype py_value = Falsy | Truthy string

text \<open>
  The attributes of a message that \<open>collect_urls_from_langgraph_messages\<close> reads
  with \<open>getattr\<close>. For the two names, \<open>None\<close> stands for an attribute that is absent or
  holds Python's \<open>None\<close>, and \<open>Some s\<close> for the string \<open>s\<close>. \<open>rendering\<close> is
  \<open>str(msg)\<close>, which \<open>_flatten\<close> returns.
\<close>

record message =
  tool_name :: "string option"
  name :: "string option"
  content :: py_value
  rendering :: string

definition flatten :: "message \<Rightarrow> string" where
  "flatten msg = rendering msg"

text \<open>\<open>getattr(msg, "tool_name", "") or getattr(msg, "name", "")\<close>; the empty
  string is the falsy result.\<close>

definition tool_label :: "message \<Rightarrow> string" where
  "tool_label msg =
     (case tool_name msg of
        Some t \<Rightarrow> if t \<noteq> [] then t else (case name msg of Some n \<Rightarrow> n | None \<Rightarrow> [])
      | None \<Rightarrow> (case name msg of Some n \<Rightarrow> n | None \<Rightarrow> []))"

text \<open>\<open>content = getattr(msg, "content", "")\<close>, replaced by \<open>_flatten(msg)\<close> when
  falsy.\<close>

definition message_content :: "message \<Rightarrow> string" where
  "message_content msg =
     (case content msg of
        Truthy c \<Rightarrow> c
      | Falsy \<Rightarrow> flatten msg)"

text \<open>The inner loop of both branches: \<open>if u not in seen: seen.add(u); out.append(u)\<close>.\<close>

definition add_url :: "string \<Rightarrow> string set \<times> string list \<Rightarrow> string set \<times> string list" where
  "add_url u st = (if u \<notin> fst st then (insert u (fst st), snd st @ [u]) else st)"

text \<open>The body of the loop over the messages, on the state \<open>(seen, out)\<close>.\<close>

definition collect_step :: "message \<Rightarrow> string set \<times> string list \<Rightarrow> string set \<times> string list" where
  "collect_step msg st =
     (let label = tool_label msg;
          content = message_content msg
      in if label \<noteq> [] then
           (let name_l = lower label
            in if str_in ''tavily'' name_l \<or> str_in ''search'' name_l \<or> str_in ''tool'' name_l
               then fold add_url (extract_urls (Some content)) st
               else st)
         else if str_in ''http'' content
              then fold add_url (extract_urls (Some content)) st
              else st)"

definition collect_urls_from_langgraph_messages :: "message list \<Rightarrow> string list" where
  "collect_urls_from_langgraph_messages messages = snd (fold collect_step messages ({}, []))"

section \<open>utils/formatting.py: the citation grounding filter\<close>

text \<open>
  \<open>allowed_set\<close> is a Python \<open>set\<close>. Membership in it does not depend on the order
  of its elements, but \<open>list(allowed_set)\<close> does: the order in which a set of
  strings is iterated is fixed by the hashes of the strings, which the source does
  not control. The model takes that order as a parameter: an \<open>iteration\<close> maps the
  elements in the order they were added to the order in which the set yields them.
  \<open>iterates it xs\<close> says what every Python set guarantees of it: each element once.
\<close>

type_synonym iteration = "string list \<Rightarrow> string list"

definition iterates :: "iteration \<Rightarrow> string list \<Rightarrow> bool" where
  "iterates it xs \<longleftrightarrow> distinct (it xs) \<and> set (it xs) = set xs"

text \<open>One possible iteration: the order of first insertion.\<close>

definition insertion_order :: iteration where
  "insertion_order xs = rev (remdups (rev xs))"

text \<open>The body of the loop that builds \<open>grounded\<close>.\<close>

definition grounded_step :: "string set \<Rightarrow> string \<Rightarrow> string list \<Rightarrow> string list" where
  "grounded_step allowed_set u grounded =
     (let base = split_hash_0 u
      in if base \<in> allowed_set \<and> base \<notin> set grounded then grounded @ [base] else grounded)"

definition enforce_grounded_citations ::
  "iteration \<Rightarrow> string option \<Rightarrow> string list \<Rightarrow> string list" where
  "enforce_grounded_citations it answer_text allowed_urls =
     (if allowed_urls = [] then extract_urls answer_text
      else
        (let answer_urls = extract_urls answer_text;
             allowed_set = set (map split_hash_0 allowed_urls);
             grounded = fold (grounded_step allowed_set) answer_urls []
         in if grounded \<noteq> [] then grounded
            else take 3 (it (map split_hash_0 allowed_urls))))"

section \<open>graph.py: history normalisation and preamble injection\<close>

text \<open>
  An item of the raw history: a tuple of length two (its components already turned
  into text by \<open>str\<close>), a dict (the \<open>str\<close> of the values under \<open>"role"\<close> and
  \<open>"content"\<close>, \<open>None\<close> for a missing key), or anything else (its \<open>str\<close>).
\<close>

datatype history_item =
    Tuple2 string string
  | Dict "string option" "string option"
  | Other string

fun normalize_item :: "history_item \<Rightarrow> string \<times> string" where
  "normalize_item (Tuple2 r c) = (r, c)"
| "normalize_item (Dict r c) =
     ((case r of Some x \<Rightarrow> x | None \<Rightarrow> ''user''), (case c of Some x \<Rightarrow> x | None \<Rightarrow> []))"
| "normalize_item (Other s) = (''user'', s)"

definition normalize_history :: "history_item list \<Rightarrow> (string \<times> string) list" where
  "normalize_history history = map normalize_item history"

definition inject_preamble :: "history_item list \<Rightarrow> string \<Rightarrow> (string \<times> string) list" where
  "inject_preamble raw_history preamble =
     (let history = normalize_history raw_history
      in case history of
           [] \<Rightarrow> [(''system'', preamble)]
         | first # _ \<Rightarrow>
             if fst first = ''system'' \<and> str_in preamble (snd first) then history
             else (''system'', preamble) # history)"

section \<open>graph.py: invoking the agent\<close>

text \<open>
  The first lines of \<open>invoke_agent\<close>. \<open>PREAMBLE\<close> is the module's default preamble,
  taken as a parameter. \<open>current_preamble\<close> is \<open>preamble_override or PREAMBLE\<close>, and
  \<open>agent_input\<close> the list \<open>messages\<close> handed to \<open>agent.invoke\<close>.
\<close>

definition current_preamble :: "string \<Rightarrow> string option \<Rightarrow> string" where
  "current_preamble PREAMBLE preamble_override =
     (case preamble_override of
        Some p \<Rightarrow> if p \<noteq> [] then p else PREAMBLE
      | None \<Rightarrow> PREAMBLE)"

definition agent_input :: "string \<Rightarrow> history_item list \<Rightarrow> string option \<Rightarrow> (string \<times> string) list" where
  "agent_input PREAMBLE history preamble_override =
     inject_preamble history (current_preamble PREAMBLE preamble_override)"

text \<open>
  \<open>agent.invoke\<close> is a call into LangGraph, taken as a parameter: it maps the messages
  it is given to the message objects of \<open>result["messages"]\<close>. \<open>invoke_agent_raw\<close> is
  that list, which \<open>invoke_agent\<close> returns under \<open>"raw"\<close>: the full transcript of the
  call.
\<close>

definition invoke_agent_raw ::
  "string \<Rightarrow> ((string \<times> string) list \<Rightarrow> message list) \<Rightarrow> history_item list \<Rightarrow> string option
     \<Rightarrow> message list" where
  "invoke_agent_raw PREAMBLE agent history preamble_override =
     agent (agent_input PREAMBLE history preamble_override)"

text \<open>
  A transcript handed back as the history of a later call. A message object is neither
  a tuple nor a dict, so \<open>_normalize_history\<close> takes its last branch on each: the item
  is \<open>Other\<close>, with the \<open>str\<close> of the message.
\<close>

definition as_history :: "message list \<Rightarrow> history_item list" where
  "as_history msgs = map (\<lambda>m. Other (rendering m)) msgs"

section \<open>graph.py: agent construction\<close>

text \<open>
  The process environment is a map from variable names to values. \<open>load_dotenv\<close> and
  the constructors of the model, the search tool and the agent are calls into other
  packages: \<open>build_agent\<close> takes the effect of \<open>load_dotenv\<close> on the environment as
  a parameter and records each later external call in a trace.
\<close>

type_synonym env = "string \<rightharpoonup> string"

datatype error = RuntimeError string

datatype external_call =
    ChatOpenAI string
  | TavilySearch nat
  | Create_react_agent_positional
  | Create_react_agent_keyword

datatype agent = Agent string nat

definition require_env :: "env \<Rightarrow> string \<Rightarrow> error + string" where
  "require_env environ var_name =
     (case environ var_name of
        None \<Rightarrow> Inl (RuntimeError (''Missing environment variable: '' @ var_name @
                  ''. Please set it in your .env or your shell session.''))
      | Some val \<Rightarrow>
          if val = [] then Inl (RuntimeError (''Missing environment variable: '' @ var_name @
                  ''. Please set it in your .env or your shell session.''))
          else Inr val)"

text \<open>
  \<open>build_agent(model_name)\<close>: the result, and the external calls made after
  \<open>load_dotenv\<close>, in order. \<open>positional_ok\<close> says whether the positional call of
  \<open>create_react_agent\<close> is accepted (otherwise it raises \<open>TypeError\<close> and the
  keyword call follows).
\<close>

definition build_agent ::
  "(env \<Rightarrow> env) \<Rightarrow> bool \<Rightarrow> env \<Rightarrow> string option \<Rightarrow> (error + agent) \<times> external_call list" where
  "build_agent load_dotenv positional_ok environ0 model_name =
     (let environ = load_dotenv environ0
      in case require_env environ ''OPENAI_API_KEY'' of
           Inl e \<Rightarrow> (Inl e, [])
         | Inr _ \<Rightarrow>
             (case require_env environ ''TAVILY_API_KEY'' of
                Inl e \<Rightarrow> (Inl e, [])
              | Inr _ \<Rightarrow>
                  (let resolved_model =
                         (case model_name of
                            Some m \<Rightarrow> if m \<noteq> [] then m
                                      else (case environ ''OPENAI_MODEL'' of
                                              Some v \<Rightarrow> if v \<noteq> [] then v else ''gpt-4o-mini''
                                            | None \<Rightarrow> ''gpt-4o-mini'')
                          | None \<Rightarrow> (case environ ''OPENAI_MODEL'' of
                                       Some v \<Rightarrow> if v \<noteq> [] then v else ''gpt-4o-mini''
                                     | None \<Rightarrow> ''gpt-4o-mini''))
                   in (Inr (Agent resolved_model 5),
                       [ChatOpenAI resolved_model, TavilySearch 5, Create_react_agent_positional] @
                       (if positional_ok then [] else [Create_react_agent_keyword])))))"

section \<open>Notions used to state the properties\<close>

text \<open>The elements of a list in the order of their first occurrence, each once.\<close>

definition first_occurrences :: "'a list \<Rightarrow> 'a list" where
  "first_occurrences xs = rev (remdups (rev xs))"

text \<open>The position paired with the first entry that satisfies \<open>P\<close>; \<open>d\<close> when no
  entry does.\<close>

definition position_of :: "('b \<Rightarrow> bool) \<Rightarrow> nat \<Rightarrow> (nat \<times> 'b) list \<Rightarrow> nat" where
  "position_of P d ps = (case find (\<lambda>pm. P (snd pm)) ps of None \<Rightarrow> d | Some pm \<Rightarrow> fst pm)"

text \<open>The offset in \<open>t\<close> of the first match of the pattern that yields the URL \<open>u\<close>
  once its trailing punctuation is removed.\<close>

definition first_occurrence :: "string \<Rightarrow> string \<Rightarrow> nat" where
  "first_occurrence t u =
     position_of (\<lambda>m. rstrip ''.,);]}'' m = u) (length t) (finditer 0 t)"

text \<open>A text that begins with \<open>http://\<close> or \<open>https://\<close>, in any mix of cases.\<close>

definition has_scheme :: "string \<Rightarrow> bool" where
  "has_scheme u \<longleftrightarrow> lower (take 7 u) = ''http://'' \<or> lower (take 8 u) = ''https://''"

text \<open>The number of system messages of a normalised history.\<close>

definition count_system :: "(string \<times> string) list \<Rightarrow> nat" where
  "count_system msgs = length (filter (\<lambda>m. fst m = ''system'') msgs)"

section \<open>Auxiliary facts\<close>

lemma first_occurrences_Nil: "first_occurrences [] = []"
  by (simp add: first_occurrences_def)

lemma first_occurrences_snoc:
  "first_occurrences (xs @ [x]) =
     (if x \<in> set xs then first_occurrences xs else first_occurrences xs @ [x])"
  by (simp add: first_occurrences_def)

lemma set_first_occurrences: "set (first_occurrences xs) = set xs"
  by (simp add: first_occurrences_def)

lemma distinct_first_occurrences: "distinct (first_occurrences xs)"
  by (simp add: first_occurrences_def)

lemma fold_extract_step:
  "fold extract_step ms ({}, []) =
     (set (map (rstrip ''.,);]}'') ms), first_occurrences (map (rstrip ''.,);]}'') ms))"
proof (induction ms rule: rev_induct)
  case Nil
  show ?case by (simp add: first_occurrences_Nil)
next
  case (snoc m ms)
  have "fold extract_step (ms @ [m]) ({}, []) =
          extract_step m (set (map (rstrip ''.,);]}'') ms),
                          first_occurrences (map (rstrip ''.,);]}'') ms))"
    by (simp add: snoc.IH)
  also have "\<dots> = (set (map (rstrip ''.,);]}'') (ms @ [m])),
                      first_occurrences (map (rstrip ''.,);]}'') (ms @ [m])))"
    by (auto simp: extract_step_def Let_def first_occurrences_snoc)
  finally show ?case .
qed

lemma fold_grounded_step:
  "fold (grounded_step A) us [] =
     first_occurrences (filter (\<lambda>b. b \<in> A) (map split_hash_0 us))"
proof (induction us rule: rev_induct)
  case Nil
  show ?case by (simp add: first_occurrences_Nil)
next
  case (snoc u us)
  have "fold (grounded_step A) (us @ [u]) [] =
          grounded_step A u (first_occurrences (filter (\<lambda>b. b \<in> A) (map split_hash_0 us)))"
    by (simp add: snoc.IH)
  also have "\<dots> = first_occurrences (filter (\<lambda>b. b \<in> A) (map split_hash_0 (us @ [u])))"
    by (simp add: grounded_step_def Let_def first_occurrences_snoc set_first_occurrences)
  finally show ?case .
qed

lemma split_hash_0_no_hash: "CHR ''#'' \<notin> set (split_hash_0 u)"
  by (auto simp: split_hash_0_def dest: set_takeWhileD)

lemma take3_eq: "take 3 xs = [a, b, c] \<Longrightarrow> \<exists>ys. xs = a # b # c # ys"
  by (cases xs; cases "tl xs"; cases "tl (tl xs)") (auto simp: numeral_3_eq_3)

lemma lower_simps:
  "py_lower_char (CHR ''h'') = CHR ''h''" "py_lower_char (CHR ''H'') = CHR ''h''"
  "py_lower_char (CHR ''t'') = CHR ''t''" "py_lower_char (CHR ''T'') = CHR ''t''"
  "py_lower_char (CHR ''p'') = CHR ''p''" "py_lower_char (CHR ''P'') = CHR ''p''"
  "py_lower_char (CHR ''s'') = CHR ''s''" "py_lower_char (CHR ''S'') = CHR ''s''"
  "py_lower_char (CHR '':'') = CHR '':''" "py_lower_char (CHR ''/'') = CHR ''/''"
  by code_simp+

lemma scheme_len_Some:
  assumes "scheme_len s = Some k"
  shows "\<exists>sch rest. s = sch @ CHR ''/'' # rest \<and> k = Suc (length sch) \<and>
           (\<forall>rest'. has_scheme (sch @ CHR ''/'' # rest'))"
proof -
  obtain c1 c2 c3 c4 c5 r where s: "s = c1 # c2 # c3 # c4 # c5 # r"
    using assms by (cases s rule: scheme_len.cases) (auto split: list.splits if_splits)
  have letters: "c1 = CHR ''h'' \<or> c1 = CHR ''H''" "c2 = CHR ''t'' \<or> c2 = CHR ''T''"
    "c3 = CHR ''t'' \<or> c3 = CHR ''T''" "c4 = CHR ''p'' \<or> c4 = CHR ''P''"
    using assms unfolding s by (auto split: if_splits)
  have low: "map py_lower_char [c1, c2, c3, c4] = ''http''"
    using letters by (auto simp: lower_simps)
  consider (https) "(c5 = CHR ''s'' \<or> c5 = CHR ''S'')" "take 3 r = ''://''" "k = 8"
    | (http) "take 3 (c5 # r) = ''://''" "k = 7"
    using assms unfolding s by (auto split: if_splits)
  then show ?thesis
  proof cases
    case https
    from take3_eq[OF https(2)] obtain ys where r: "r = CHR '':'' # CHR ''/'' # CHR ''/'' # ys" by blast
    let ?sch = "[c1, c2, c3, c4, c5, CHR '':'', CHR ''/'']"
    have a: "s = ?sch @ CHR ''/'' # ys" by (simp add: s r)
    have b: "\<forall>rest'. has_scheme (?sch @ CHR ''/'' # rest')"
      using low https(1) by (auto simp: has_scheme_def lower_def lower_simps)
    have c: "k = Suc (length ?sch)" using https(3) by simp
    from a b c show ?thesis by blast
  next
    case http
    from take3_eq[OF http(1)] obtain ys where r: "c5 # r = CHR '':'' # CHR ''/'' # CHR ''/'' # ys" by blast
    let ?sch = "[c1, c2, c3, c4, CHR '':'', CHR ''/'']"
    have a: "s = ?sch @ CHR ''/'' # ys" using r by (simp add: s)
    have b: "\<forall>rest'. has_scheme (?sch @ CHR ''/'' # rest')"
      using low by (auto simp: has_scheme_def lower_def lower_simps)
    have c: "k = Suc (length ?sch)" using http(2) by simp
    from a b c show ?thesis by blast
  qed
qed


lemma rstrip_keeps_prefix:
  assumes "c \<notin> set chars"
  shows "rstrip chars (sch @ c # body) = sch @ c # rstrip chars body"
proof -
  have "dropWhile (\<lambda>x. x \<in> set chars) (rev body @ c # rev sch) =
          dropWhile (\<lambda>x. x \<in> set chars) (rev body) @ c # rev sch"
    using assms by (simp add: dropWhile_append3)
  then show ?thesis by (simp add: rstrip_def)
qed

lemma rstrip_decompose:
  "\<exists>tail. m = rstrip chars m @ tail \<and> set tail \<subseteq> set chars"
proof -
  let ?P = "\<lambda>x. x \<in> set chars"
  have "rev (dropWhile ?P (rev m)) @ rev (takeWhile ?P (rev m)) =
          rev (takeWhile ?P (rev m) @ dropWhile ?P (rev m))"
    by (simp only: rev_append)
  also have "\<dots> = m"
    by (simp only: takeWhile_dropWhile_id rev_rev_ident)
  finally have "m = rstrip chars m @ rev (takeWhile ?P (rev m))"
    by (simp add: rstrip_def)
  moreover have "set (rev (takeWhile ?P (rev m))) \<subseteq> set chars"
    by (auto dest: set_takeWhileD)
  ultimately show ?thesis by blast
qed

lemma match_at_Some:
  assumes "match_at s = Some m"
  shows "\<exists>rest. s = m @ rest" and "has_scheme (rstrip ''.,);]}'' m)"
proof -
  from assms obtain k where k: "scheme_len s = Some k"
    and m: "m = take k s @ takeWhile url_char (drop k s)"
    by (auto simp: match_at_def Let_def split: option.splits if_splits)
  have "s = take k s @ takeWhile url_char (drop k s) @ dropWhile url_char (drop k s)"
    by simp
  then have "s = m @ dropWhile url_char (drop k s)" by (simp add: m)
  then show "\<exists>rest. s = m @ rest" by blast
  from scheme_len_Some[OF k] obtain sch rest where
    s: "s = sch @ CHR ''/'' # rest" and len: "k = Suc (length sch)"
    and sc: "\<forall>rest'. has_scheme (sch @ CHR ''/'' # rest')"
    by blast
  have "m = sch @ CHR ''/'' # takeWhile url_char rest"
    by (simp add: m s len)
  then have "rstrip ''.,);]}'' m = sch @ CHR ''/'' # rstrip ''.,);]}'' (takeWhile url_char rest)"
    by (simp add: rstrip_keeps_prefix)
  then show "has_scheme (rstrip ''.,);]}'' m)" using sc by simp
qed

lemma finditer_located:
  "(p, m) \<in> set (finditer pos s) \<Longrightarrow>
     \<exists>pre rest. s = pre @ m @ rest \<and> p = pos + length pre"
proof (induction pos s rule: finditer.induct)
  case (1 pos)
  then show ?case by simp
next
  case (2 pos c cs)
  show ?case
  proof (cases "match_at (c # cs)")
    case None
    with 2 obtain pre rest where "cs = pre @ m @ rest" "p = Suc pos + length pre" by auto
    then have "c # cs = (c # pre) @ m @ rest \<and> p = pos + length (c # pre)" by simp
    then show ?thesis by blast
  next
    case (Some m')
    from match_at_Some(1)[OF Some] obtain r where r: "c # cs = m' @ r" by blast
    from 2 Some have "(p, m) = (pos, m') \<or> (p, m) \<in> set (finditer (pos + length m') (drop (length m') (c # cs)))"
      by auto
    then show ?thesis
    proof
      assume "(p, m) = (pos, m')"
      then have "c # cs = [] @ m @ r \<and> p = pos + length ([]::string)" using r by simp
      then show ?thesis by blast
    next
      assume "(p, m) \<in> set (finditer (pos + length m') (drop (length m') (c # cs)))"
      from 2(2)[OF Some this] obtain pre rest where
        "drop (length m') (c # cs) = pre @ m @ rest" "p = pos + length m' + length pre" by blast
      then have "c # cs = (m' @ pre) @ m @ rest \<and> p = pos + length (m' @ pre)"
        using r by simp
      then show ?thesis by blast
    qed
  qed
qed

lemma finditer_scheme:
  "(p, m) \<in> set (finditer pos s) \<Longrightarrow> has_scheme (rstrip ''.,);]}'' m)"
proof (induction pos s rule: finditer.induct)
  case (1 pos)
  then show ?case by simp
next
  case (2 pos c cs)
  then show ?case
    by (cases "match_at (c # cs)") (auto dest: match_at_Some(2))
qed

lemma finditer_positions:
  "sorted_wrt (<) (map fst (finditer pos s)) \<and> (\<forall>q \<in> set (map fst (finditer pos s)). pos \<le> q)"
proof (induction pos s rule: finditer.induct)
  case (1 pos)
  show ?case by simp
next
  case (2 pos c cs)
  show ?case
  proof (cases "match_at (c # cs)")
    case None
    with 2(1) show ?thesis by fastforce
  next
    case (Some m')
    then have "m' \<noteq> []" by (auto simp: match_at_def Let_def split: option.splits if_splits)
    then have "0 < length m'" by simp
    let ?rest = "finditer (pos + length m') (drop (length m') (c # cs))"
    from 2(2)[OF Some] have s: "sorted_wrt (<) (map fst ?rest)"
      and lb: "\<forall>q \<in> set (map fst ?rest). pos + length m' \<le> q" by blast+
    have eq: "finditer pos (c # cs) = (pos, m') # ?rest" using Some by simp
    have "\<forall>q \<in> set (map fst ?rest). pos < q"
    proof
      fix q assume "q \<in> set (map fst ?rest)"
      with lb have "pos + length m' \<le> q" by blast
      with \<open>0 < length m'\<close> show "pos < q" by linarith
    qed
    then show ?thesis unfolding eq using s by auto
  qed
qed

lemma find_snoc:
  "find P (xs @ [x]) = (case find P xs of None \<Rightarrow> (if P x then Some x else None) | Some y \<Rightarrow> Some y)"
  by (induction xs) auto

lemma first_position_sorted:
  fixes ps :: "(nat \<times> 'a) list" and k :: "'a \<Rightarrow> 'b"
  assumes "sorted_wrt (<) (map fst ps)"
  shows "sorted_wrt (<) (map (\<lambda>u. position_of (\<lambda>m. k m = u) d ps)
                            (first_occurrences (map (k \<circ> snd) ps)))"
  using assms
proof (induction ps rule: rev_induct)
  case Nil
  show ?case by (simp add: first_occurrences_Nil)
next
  case (snoc x ps)
  define keys where "keys = first_occurrences (map (k \<circ> snd) ps)"
  define fp where "fp = (\<lambda>u. position_of (\<lambda>m. k m = u) d ps)"
  define fp' where "fp' = (\<lambda>u. position_of (\<lambda>m. k m = u) d (ps @ [x]))"
  from snoc.prems have sorted: "sorted_wrt (<) (map fst ps)"
    and above: "\<forall>p \<in> set (map fst ps). p < fst x"
    by (auto simp: sorted_wrt_append)
  have old: "fp' u = fp u \<and> fp u < fst x" if "u \<in> set keys" for u
  proof -
    from that have "u \<in> set (map (k \<circ> snd) ps)"
      by (simp only: keys_def set_first_occurrences)
    then obtain z where "z \<in> set ps" "k (snd z) = u" by auto
    then have "find (\<lambda>pm. k (snd pm) = u) ps \<noteq> None"
      unfolding find_None_iff by blast
    then obtain y where y: "find (\<lambda>pm. k (snd pm) = u) ps = Some y"
      by blast
    then have "y \<in> set ps" by (auto simp: find_Some_iff in_set_conv_nth)
    then have "fst y < fst x" using above by auto
    then show ?thesis using y by (simp add: fp_def fp'_def position_of_def find_snoc)
  qed
  have IH: "sorted_wrt (<) (map fp keys)"
    using snoc.IH[OF sorted] by (simp only: fp_def keys_def)
  have same: "map fp' keys = map fp keys"
    using old by simp
  have goal: "sorted_wrt (<) (map fp' (first_occurrences (map (k \<circ> snd) (ps @ [x]))))"
  proof (cases "k (snd x) \<in> set (map (k \<circ> snd) ps)")
    case True
    then have fo: "first_occurrences (map (k \<circ> snd) (ps @ [x])) = keys"
      by (simp add: first_occurrences_snoc keys_def)
    show ?thesis unfolding fo same by (rule IH)
  next
    case False
    then have fo: "first_occurrences (map (k \<circ> snd) (ps @ [x])) = keys @ [k (snd x)]"
      by (simp add: first_occurrences_snoc keys_def)
    have "\<not> (\<exists>z. z \<in> set ps \<and> k (snd z) = k (snd x))"
    proof
      assume "\<exists>z. z \<in> set ps \<and> k (snd z) = k (snd x)"
      then obtain z where "z \<in> set ps" "k (snd z) = k (snd x)" by blast
      then have "k (snd x) \<in> (k \<circ> snd) ` set ps" by (metis comp_apply imageI)
      with False show False by simp
    qed
    then have "find (\<lambda>pm. k (snd pm) = k (snd x)) ps = None"
      unfolding find_None_iff by blast
    then have new: "fp' (k (snd x)) = fst x"
      by (simp add: fp'_def position_of_def find_snoc)
    have lt: "\<forall>u \<in> set keys. fp u < fst x"
      using old by simp
    have "sorted_wrt (<) (map fp' keys @ [fp' (k (snd x))])"
      unfolding same using IH lt new by (simp add: sorted_wrt_append)
    then show ?thesis
      unfolding fo by simp
  qed
  then show ?case by (simp only: fp'_def)
qed

lemma extract_urls_Some:
  "extract_urls (Some t) = first_occurrences (map (rstrip ''.,);]}'' \<circ> snd) (finditer 0 t))"
proof (cases "t = []")
  case True
  then show ?thesis by (simp add: extract_urls_def first_occurrences_Nil)
next
  case False
  then show ?thesis by (simp add: extract_urls_def fold_extract_step)
qed

lemma extract_urls_distinct: "distinct (extract_urls text)"
  by (cases "text") (simp_all add: extract_urls_Some distinct_first_occurrences, simp add: extract_urls_def)

lemma extract_urls_member:
  assumes "u \<in> set (extract_urls text)"
  shows "\<exists>t p m. text = Some t \<and> (p, m) \<in> set (finditer 0 t) \<and> u = rstrip ''.,);]}'' m"
proof (cases "text")
  case None
  with assms show ?thesis by (simp add: extract_urls_def)
next
  case (Some t)
  with assms have "u \<in> set (map (rstrip ''.,);]}'' \<circ> snd) (finditer 0 t))"
    by (simp only: extract_urls_Some set_first_occurrences)
  then obtain pm where "pm \<in> set (finditer 0 t)" "u = rstrip ''.,);]}'' (snd pm)" by auto
  then have "(fst pm, snd pm) \<in> set (finditer 0 t) \<and> u = rstrip ''.,);]}'' (snd pm)" by simp
  with Some show ?thesis by blast
qed

lemma iterates_insertion_order: "iterates insertion_order xs"
  by (simp add: iterates_def insertion_order_def)

lemma enforce_nonempty:
  assumes "allowed_urls \<noteq> []"
  shows "enforce_grounded_citations it answer_text allowed_urls =
           (let kept = first_occurrences
                         (filter (\<lambda>b. b \<in> set (map split_hash_0 allowed_urls))
                                 (map split_hash_0 (extract_urls answer_text)))
            in if kept \<noteq> [] then kept else take 3 (it (map split_hash_0 allowed_urls)))"
  using assms by (simp add: enforce_grounded_citations_def Let_def fold_grounded_step)

lemma enforce_members:
  assumes "allowed_urls \<noteq> []" and "iterates it (map split_hash_0 allowed_urls)"
    and "u \<in> set (enforce_grounded_citations it answer_text allowed_urls)"
  shows "u \<in> set (map split_hash_0 allowed_urls)"
proof -
  let ?S = "map split_hash_0 allowed_urls"
  let ?kept = "first_occurrences (filter (\<lambda>b. b \<in> set ?S) (map split_hash_0 (extract_urls answer_text)))"
  show ?thesis
  proof (cases "?kept = []")
    case True
    then have "u \<in> set (take 3 (it ?S))"
      using assms(3) by (simp add: enforce_nonempty[OF assms(1)])
    then have "u \<in> set (it ?S)" by (rule in_set_takeD)
    then show ?thesis using assms(2) by (simp add: iterates_def)
  next
    case False
    then have "u \<in> set ?kept"
      using assms(3) by (simp add: enforce_nonempty[OF assms(1)])
    then show ?thesis by (simp add: set_first_occurrences)
  qed
qed

lemma singleton_iteration:
  assumes "iterates it [a]"
  shows "it [a] = [a]"
proof -
  from assms have d: "distinct (it [a])" and s: "set (it [a]) = {a}"
    by (simp_all add: iterates_def)
  then show ?thesis
    by (cases "it [a]"; cases "tl (it [a])") auto
qed

lemma collect_step_unrelated:
  assumes "tool_label msg \<noteq> []"
    and "\<not> str_in ''tavily'' (lower (tool_label msg))"
    and "\<not> str_in ''search'' (lower (tool_label msg))"
    and "\<not> str_in ''tool'' (lower (tool_label msg))"
  shows "collect_step msg st = st"
  using assms by (simp add: collect_step_def Let_def)

lemma normalize_as_history:
  "normalize_history (as_history msgs) = map (\<lambda>m. (''user'', rendering m)) msgs"
  by (simp add: normalize_history_def as_history_def)

lemma inject_preamble_as_history:
  "inject_preamble (as_history msgs) p = (''system'', p) # map (\<lambda>m. (''user'', rendering m)) msgs"
  by (cases msgs) (simp_all add: inject_preamble_def normalize_as_history)

lemma count_system_user:
  "count_system (map (\<lambda>m. (''user'', rendering m)) msgs) = 0"
  by (induction msgs) (simp_all add: count_system_def)

section \<open>The properties of the specification\<close>

text \<open>
  Claim C1 as stated, that every URL returned by \<open>enforce_grounded_citations\<close> is one
  of the URLs extracted from the answer or one of the allowed URLs, fails: the answer
  cites \<open>https://a.com/1#sec\<close>, the allowed list holds \<open>https://a.com/1#top\<close>, and the
  filter returns \<open>https://a.com/1\<close>, which is in neither.
\<close>

theorem grounded_citation_absent_from_both:
  "''https://a.com/1'' \<in> set (enforce_grounded_citations insertion_order
        (Some ''See https://a.com/1#sec'') [''https://a.com/1#top'']) \<and>
   ''https://a.com/1'' \<notin> set (extract_urls (Some ''See https://a.com/1#sec'')) \<and>
   ''https://a.com/1'' \<notin> set [''https://a.com/1#top'']"
  by code_simp

text \<open>
  Claim C1, amended: every URL returned by \<open>enforce_grounded_citations\<close> is present
  among the URLs extracted from the answer or among the allowed URLs either as it is
  written there or with its \<open>#\<close> fragment removed. The iteration of the set only has to
  yield the elements of the set.
\<close>

theorem grounded_citations_from_evidence:
  assumes "iterates it (map split_hash_0 allowed_urls)"
  shows "\<forall>u \<in> set (enforce_grounded_citations it answer_text allowed_urls).
           \<exists>v \<in> set (extract_urls answer_text) \<union> set allowed_urls. u = v \<or> u = split_hash_0 v"
proof (cases "allowed_urls = []")
  case True
  then show ?thesis by (auto simp: enforce_grounded_citations_def)
next
  case False
  show ?thesis
  proof
    fix u assume "u \<in> set (enforce_grounded_citations it answer_text allowed_urls)"
    from enforce_members[OF False assms this] obtain v where
      "v \<in> set allowed_urls" "u = split_hash_0 v" by auto
    then show "\<exists>v \<in> set (extract_urls answer_text) \<union> set allowed_urls. u = v \<or> u = split_hash_0 v"
      by blast
  qed
qed

text \<open>The statement above at a concrete input.\<close>

theorem grounded_citations_from_evidence_witness:
  "iterates insertion_order (map split_hash_0 [''https://a.com/1#top'']) \<and>
   enforce_grounded_citations insertion_order (Some ''See https://a.com/1#sec'') [''https://a.com/1#top'']
     = [''https://a.com/1''] \<and>
   (\<exists>v \<in> set (extract_urls (Some ''See https://a.com/1#sec'')) \<union> set [''https://a.com/1#top''].
      ''https://a.com/1'' = v \<or> ''https://a.com/1'' = split_hash_0 v)"
proof -
  have h: "iterates insertion_order (map split_hash_0 [''https://a.com/1#top''])"
    by (rule iterates_insertion_order)
  have e: "enforce_grounded_citations insertion_order (Some ''See https://a.com/1#sec'')
             [''https://a.com/1#top''] = [''https://a.com/1'']"
    by code_simp
  from grounded_citations_from_evidence[OF h, of "Some ''See https://a.com/1#sec''"]
  show ?thesis using h e by simp
qed

text \<open>
  Claim C2: when no cited URL matches, the source returns \<open>list(allowed_set)[:3]\<close>, the
  first three elements of the set of fragment-stripped forms in the set's own order,
  not the first three entries of \<open>allowed_urls\<close>. For the answer
  \<open>It is sunny today.\<close> and \<open>allowed_urls = ["https://a.com/1#top"]\<close> the result is
  \<open>["https://a.com/1"]\<close> under every iteration order, while the first
  \<open>min(3, length)\<close> entries of \<open>allowed_urls\<close> are \<open>["https://a.com/1#top"]\<close>.
\<close>

theorem fallback_returns_stripped_entry:
  assumes "iterates it (map split_hash_0 [''https://a.com/1#top''])"
  shows "enforce_grounded_citations it (Some ''It is sunny today.'') [''https://a.com/1#top'']
           = [''https://a.com/1''] \<and>
         take (min 3 (length [''https://a.com/1#top''])) [''https://a.com/1#top'']
           = [''https://a.com/1#top'']"
proof -
  have s: "split_hash_0 ''https://a.com/1#top'' = ''https://a.com/1''"
    by code_simp
  have e: "extract_urls (Some ''It is sunny today.'') = []"
    by code_simp
  have "iterates it [''https://a.com/1'']"
    using assms by (simp add: s)
  then have "it [''https://a.com/1''] = [''https://a.com/1'']"
    by (rule singleton_iteration)
  then show ?thesis
    by (simp add: enforce_nonempty e s first_occurrences_Nil)
qed

text \<open>The statement above at a concrete input.\<close>

theorem fallback_returns_stripped_entry_witness:
  "iterates insertion_order (map split_hash_0 [''https://a.com/1#top'']) \<and>
   enforce_grounded_citations insertion_order (Some ''It is sunny today.'') [''https://a.com/1#top'']
           = [''https://a.com/1'']"
proof -
  have h: "iterates insertion_order (map split_hash_0 [''https://a.com/1#top''])"
    by (rule iterates_insertion_order)
  from fallback_returns_stripped_entry[OF h] show ?thesis using h by simp
qed

text \<open>
  Claim C3: for a non-empty \<open>allowed_urls\<close>, the filter keeps the fragment-stripped
  forms of the cited URLs that occur among the fragment-stripped forms of
  \<open>allowed_urls\<close>, in the order of the answer and each once; it returns this list
  when it is not empty (and the fallback otherwise). For
  \<open>allowed = ["https://a.com/1", "https://b.com/2"]\<close> and the answer
  \<open>See https://a.com/1#sec and also https://c.com/3\<close> it returns \<open>["https://a.com/1"]\<close>.
\<close>

theorem grounding_keeps_matching_citations:
  "(allowed_urls \<noteq> [] \<longrightarrow>
      (let kept = first_occurrences
                    (filter (\<lambda>b. b \<in> set (map split_hash_0 allowed_urls))
                            (map split_hash_0 (extract_urls answer_text)))
       in (kept \<noteq> [] \<longrightarrow> enforce_grounded_citations it answer_text allowed_urls = kept) \<and>
          (kept = [] \<longrightarrow> enforce_grounded_citations it answer_text allowed_urls
                            = take 3 (it (map split_hash_0 allowed_urls))))) \<and>
   enforce_grounded_citations it (Some ''See https://a.com/1#sec and also https://c.com/3'')
      [''https://a.com/1'', ''https://b.com/2''] = [''https://a.com/1'']"
proof -
  have e: "extract_urls (Some ''See https://a.com/1#sec and also https://c.com/3'')
             = [''https://a.com/1#sec'', ''https://c.com/3'']"
    by code_simp
  have k: "first_occurrences
             (filter (\<lambda>b. b \<in> set (map split_hash_0 [''https://a.com/1'', ''https://b.com/2'']))
                     (map split_hash_0 [''https://a.com/1#sec'', ''https://c.com/3'']))
           = [''https://a.com/1'']"
    by code_simp
  have n: "[''https://a.com/1'', ''https://b.com/2''] \<noteq> []" by simp
  have example: "enforce_grounded_citations it (Some ''See https://a.com/1#sec and also https://c.com/3'')
      [''https://a.com/1'', ''https://b.com/2''] = [''https://a.com/1'']"
    unfolding enforce_nonempty[OF n] e k by simp
  show ?thesis
    using example by (simp add: enforce_nonempty Let_def)
qed

text \<open>The statement above at a concrete input.\<close>

theorem grounding_keeps_matching_citations_witness:
  "[''https://a.com/1'', ''https://a.com/9''] \<noteq> [] \<and>
   enforce_grounded_citations insertion_order
      (Some ''Read https://b.com/2 (or https://a.com/1#x, https://a.com/1#y).'')
      [''https://a.com/1'', ''https://a.com/9''] = [''https://a.com/1''] \<and>
   enforce_grounded_citations insertion_order (Some ''Read https://b.com/2.'')
      [''https://a.com/1'', ''https://a.com/9''] = [''https://a.com/1'', ''https://a.com/9'']"
proof -
  have e1: "extract_urls (Some ''Read https://b.com/2 (or https://a.com/1#x, https://a.com/1#y).'')
              = [''https://b.com/2'', ''https://a.com/1#x'', ''https://a.com/1#y'']"
    by code_simp
  have e2: "extract_urls (Some ''Read https://b.com/2.'') = [''https://b.com/2'']"
    by code_simp
  have k1: "first_occurrences
             (filter (\<lambda>b. b \<in> set (map split_hash_0 [''https://a.com/1'', ''https://a.com/9'']))
                     (map split_hash_0 [''https://b.com/2'', ''https://a.com/1#x'', ''https://a.com/1#y'']))
           = [''https://a.com/1'']"
    by code_simp
  have k2: "first_occurrences
             (filter (\<lambda>b. b \<in> set (map split_hash_0 [''https://a.com/1'', ''https://a.com/9'']))
                     (map split_hash_0 [''https://b.com/2'']))
           = []"
    by code_simp
  have i: "take 3 (insertion_order (map split_hash_0 [''https://a.com/1'', ''https://a.com/9'']))
             = [''https://a.com/1'', ''https://a.com/9'']"
    by code_simp
  from grounding_keeps_matching_citations[of "[''https://a.com/1'', ''https://a.com/9'']"
         "Some ''Read https://b.com/2 (or https://a.com/1#x, https://a.com/1#y).''" insertion_order]
       grounding_keeps_matching_citations[of "[''https://a.com/1'', ''https://a.com/9'']"
         "Some ''Read https://b.com/2.''" insertion_order]
  show ?thesis
    unfolding e1 e2 k1 k2 i Let_def by simp
qed

text \<open>
  Claim C4: with an empty \<open>allowed_urls\<close> the filter returns exactly
  \<open>extract_urls(answer_text)\<close>.
\<close>

theorem no_evidence_passes_through:
  "enforce_grounded_citations it answer_text [] = extract_urls answer_text"
  by (simp add: enforce_grounded_citations_def)

text \<open>
  Claim C5: a message with a non-empty tool-name label whose lowercase form contains
  none of \<open>tavily\<close>, \<open>search\<close>, \<open>tool\<close> contributes no URL to
  \<open>collect_urls_from_langgraph_messages\<close>, whatever its content: the result is the
  same as for the transcript without this message.
\<close>

theorem unrelated_tool_label_contributes_nothing:
  assumes "tool_label msg \<noteq> []"
    and "\<not> str_in ''tavily'' (lower (tool_label msg))"
    and "\<not> str_in ''search'' (lower (tool_label msg))"
    and "\<not> str_in ''tool'' (lower (tool_label msg))"
  shows "collect_urls_from_langgraph_messages (before @ msg # after) =
         collect_urls_from_langgraph_messages (before @ after)"
  using assms
  by (simp add: collect_urls_from_langgraph_messages_def collect_step_unrelated)

text \<open>The statement above at a concrete input.\<close>

theorem unrelated_tool_label_contributes_nothing_witness:
  "tool_label \<lparr>tool_name = Some ''Calculator'', name = None,
               content = Truthy ''see http://calc.example/1'', rendering = ''ToolMessage''\<rparr> \<noteq> [] \<and>
   \<not> str_in ''tavily'' (lower ''Calculator'') \<and>
   \<not> str_in ''search'' (lower ''Calculator'') \<and>
   \<not> str_in ''tool'' (lower ''Calculator'') \<and>
   collect_urls_from_langgraph_messages
     [\<lparr>tool_name = Some ''Calculator'', name = None,
       content = Truthy ''see http://calc.example/1'', rendering = ''ToolMessage''\<rparr>,
      \<lparr>tool_name = None, name = Some ''Tavily_Search'',
       content = Truthy ''url: http://news.example/a'', rendering = ''ToolMessage''\<rparr>]
     = [''http://news.example/a'']"
proof -
  let ?calc = "\<lparr>tool_name = Some ''Calculator'', name = None,
               content = Truthy ''see http://calc.example/1'', rendering = ''ToolMessage''\<rparr>"
  let ?search = "\<lparr>tool_name = None, name = Some ''Tavily_Search'',
       content = Truthy ''url: http://news.example/a'', rendering = ''ToolMessage''\<rparr>"
  have l: "tool_label ?calc = ''Calculator''" by (simp add: tool_label_def)
  have h: "tool_label ?calc \<noteq> []" by (simp add: l)
  have t: "\<not> str_in ''tavily'' (lower ''Calculator'')" by code_simp
  have s: "\<not> str_in ''search'' (lower ''Calculator'')" by code_simp
  have o: "\<not> str_in ''tool'' (lower ''Calculator'')" by code_simp
  have r: "collect_urls_from_langgraph_messages [?search] = [''http://news.example/a'']"
    by code_simp
  from unrelated_tool_label_contributes_nothing[of ?calc "[]" "[?search]"] h t s o r
  show ?thesis by (simp add: l)
qed

text \<open>
  Claim C6: a history whose first message is a system message containing the preamble
  is left unchanged by \<open>_inject_preamble\<close>; and when a call is given the full
  transcript of an earlier call as its history, the messages it hands to the agent
  hold exactly one system message, at position 0, equal to the current preamble: every
  message object of the transcript becomes a user message.
\<close>

theorem preamble_injection_idempotent:
  "(\<forall>first rest. normalize_history h = first # rest \<and> fst first = ''system'' \<and> str_in p (snd first)
       \<longrightarrow> inject_preamble h p = normalize_history h) \<and>
   agent_input PREAMBLE (as_history (invoke_agent_raw PREAMBLE agent h override1)) override2
     = (''system'', current_preamble PREAMBLE override2)
       # map (\<lambda>m. (''user'', rendering m)) (invoke_agent_raw PREAMBLE agent h override1) \<and>
   take 1 (agent_input PREAMBLE (as_history (invoke_agent_raw PREAMBLE agent h override1)) override2)
     = [(''system'', current_preamble PREAMBLE override2)] \<and>
   count_system (agent_input PREAMBLE (as_history (invoke_agent_raw PREAMBLE agent h override1)) override2)
     = 1"
proof (intro conjI allI impI)
  fix first rest
  assume "normalize_history h = first # rest \<and> fst first = ''system'' \<and> str_in p (snd first)"
  then show "inject_preamble h p = normalize_history h"
    by (simp add: inject_preamble_def)
next
  let ?out = "invoke_agent_raw PREAMBLE agent h override1"
  let ?p = "current_preamble PREAMBLE override2"
  have sent: "agent_input PREAMBLE (as_history ?out) override2
                = (''system'', ?p) # map (\<lambda>m. (''user'', rendering m)) ?out"
    unfolding agent_input_def by (rule inject_preamble_as_history)
  show "agent_input PREAMBLE (as_history ?out) override2
          = (''system'', ?p) # map (\<lambda>m. (''user'', rendering m)) ?out"
    by (rule sent)
  show "take 1 (agent_input PREAMBLE (as_history ?out) override2) = [(''system'', ?p)]"
    unfolding sent by simp
  have "count_system ((''system'', ?p) # map (\<lambda>m. (''user'', rendering m)) ?out)
          = Suc (count_system (map (\<lambda>m. (''user'', rendering m)) ?out))"
    by (simp add: count_system_def)
  then show "count_system (agent_input PREAMBLE (as_history ?out) override2) = 1"
    unfolding sent by (simp add: count_system_user)
qed

text \<open>The statement above at a concrete input.\<close>

theorem preamble_injection_idempotent_witness:
  "(normalize_history [Tuple2 ''system'' ''Be brief. Cite.''] = (''system'', ''Be brief. Cite.'') # [] \<and>
    fst (''system'', ''Be brief. Cite.'') = ''system'' \<and>
    str_in ''Be brief.'' (snd (''system'', ''Be brief. Cite.''))) \<and>
   inject_preamble [Tuple2 ''system'' ''Be brief. Cite.''] ''Be brief.''
     = normalize_history [Tuple2 ''system'' ''Be brief. Cite.''] \<and>
   count_system (agent_input ''Be brief.''
      (as_history (invoke_agent_raw ''Be brief.''
         (map (\<lambda>rc. \<lparr>tool_name = None, name = None, content = Truthy (snd rc),
                       rendering = fst rc @ '': '' @ snd rc\<rparr>))
         [Tuple2 ''system'' ''Old rules.'', Tuple2 ''user'' ''hi''] None)) None) = 1"
proof -
  have s: "str_in ''Be brief.'' ''Be brief. Cite.''" by code_simp
  have pre: "normalize_history [Tuple2 ''system'' ''Be brief. Cite.''] = (''system'', ''Be brief. Cite.'') # [] \<and>
    fst (''system'', ''Be brief. Cite.'') = ''system'' \<and>
    str_in ''Be brief.'' (snd (''system'', ''Be brief. Cite.''))"
    using s by (simp add: normalize_history_def)
  note k = preamble_injection_idempotent[of "[Tuple2 ''system'' ''Be brief. Cite.'']" "''Be brief.''",
         THEN conjunct1, rule_format, OF pre]
  note r = preamble_injection_idempotent[of "[Tuple2 ''system'' ''Old rules.'', Tuple2 ''user'' ''hi'']" _
         "''Be brief.''"
         "map (\<lambda>rc. \<lparr>tool_name = None, name = None, content = Truthy (snd rc),
                       rendering = fst rc @ '': '' @ snd rc\<rparr>)" None None,
         THEN conjunct2, THEN conjunct2, THEN conjunct2]
  show ?thesis
    by (rule conjI[OF pre conjI[OF k r]])
qed

text \<open>
  Claim C7: \<open>extract_urls\<close> returns no URL twice; the URLs are the matches of the
  pattern, trailing punctuation removed, in the order of their first occurrence, so
  the offsets of the first occurrences increase along the result;
  \<open>extract_urls("see http://a.com and http://a.com again") = ["http://a.com"]\<close>; the
  empty text and \<open>None\<close> give the empty list.
\<close>

theorem extract_urls_first_occurrence_order:
  "distinct (extract_urls text) \<and>
   extract_urls (Some t) = first_occurrences (map (rstrip ''.,);]}'' \<circ> snd) (finditer 0 t)) \<and>
   sorted_wrt (<) (map (first_occurrence t) (extract_urls (Some t))) \<and>
   extract_urls (Some ''see http://a.com and http://a.com again'') = [''http://a.com''] \<and>
   extract_urls (Some []) = [] \<and>
   extract_urls None = []"
proof -
  have order: "sorted_wrt (<) (map (first_occurrence t) (extract_urls (Some t)))"
  proof -
    have "sorted_wrt (<) (map fst (finditer 0 t))"
      using finditer_positions[of 0 t] by blast
    from first_position_sorted[OF this, of "rstrip ''.,);]}''" "length t"]
    show ?thesis
      unfolding extract_urls_Some first_occurrence_def .
  qed
  have example: "extract_urls (Some ''see http://a.com and http://a.com again'') = [''http://a.com'']"
    by code_simp
  have empty: "extract_urls (Some []) = []" "extract_urls None = []"
    by (simp_all add: extract_urls_def)
  show ?thesis
    using extract_urls_distinct extract_urls_Some order example empty by blast
qed

text \<open>
  Claim C8: when \<open>TAVILY_API_KEY\<close> is unset and \<open>OPENAI_API_KEY\<close> is set,
  \<open>build_agent\<close> raises a \<open>RuntimeError\<close> whose message names \<open>TAVILY_API_KEY\<close>, and no
  model, search tool or agent has been constructed at that point.
\<close>

theorem build_agent_missing_search_credential:
  assumes "load_dotenv environ ''TAVILY_API_KEY'' = None"
    and "load_dotenv environ ''OPENAI_API_KEY'' = Some key" and "key \<noteq> []"
  shows "build_agent load_dotenv positional_ok environ model_name =
           (Inl (RuntimeError ''Missing environment variable: TAVILY_API_KEY. Please set it in your .env or your shell session.''), []) \<and>
         str_in ''TAVILY_API_KEY''
           ''Missing environment variable: TAVILY_API_KEY. Please set it in your .env or your shell session.''"
proof -
  have "str_in ''TAVILY_API_KEY''
           ''Missing environment variable: TAVILY_API_KEY. Please set it in your .env or your shell session.''"
    by code_simp
  then show ?thesis
    using assms by (simp add: build_agent_def require_env_def Let_def)
qed

text \<open>The statement above at a concrete input.\<close>

theorem build_agent_missing_search_credential_witness:
  "id [''OPENAI_API_KEY'' \<mapsto> ''sk-test''] ''TAVILY_API_KEY'' = None \<and>
   id [''OPENAI_API_KEY'' \<mapsto> ''sk-test''] ''OPENAI_API_KEY'' = Some ''sk-test'' \<and>
   ''sk-test'' \<noteq> [] \<and>
   build_agent id True [''OPENAI_API_KEY'' \<mapsto> ''sk-test''] None =
     (Inl (RuntimeError ''Missing environment variable: TAVILY_API_KEY. Please set it in your .env or your shell session.''), [])"
proof -
  have a: "id [''OPENAI_API_KEY'' \<mapsto> ''sk-test''] ''TAVILY_API_KEY'' = None" by simp
  have b: "id [''OPENAI_API_KEY'' \<mapsto> ''sk-test''] ''OPENAI_API_KEY'' = Some ''sk-test''" by simp
  have c: "''sk-test'' \<noteq> []" by simp
  from build_agent_missing_search_credential
         [of id "[''OPENAI_API_KEY'' \<mapsto> ''sk-test'']" "''sk-test''" True None, OF a b c]
  show ?thesis using a b c by blast
qed

text \<open>
  Claim C9: for a non-empty \<open>allowed_urls\<close>, no URL returned by
  \<open>enforce_grounded_citations\<close> contains the character \<open>#\<close>, on the grounding path
  and on the fallback path alike.
\<close>

theorem grounded_citations_without_fragment:
  assumes "allowed_urls \<noteq> []" and "iterates it (map split_hash_0 allowed_urls)"
  shows "\<forall>u \<in> set (enforce_grounded_citations it answer_text allowed_urls). CHR ''#'' \<notin> set u"
proof
  fix u assume "u \<in> set (enforce_grounded_citations it answer_text allowed_urls)"
  from enforce_members[OF assms this] obtain v where "u = split_hash_0 v" by auto
  then show "CHR ''#'' \<notin> set u" by (simp add: split_hash_0_no_hash)
qed

text \<open>The statement above at a concrete input.\<close>

theorem grounded_citations_without_fragment_witness:
  "[''https://a.com/1#top'', ''https://b.com/2#end''] \<noteq> [] \<and>
   iterates insertion_order (map split_hash_0 [''https://a.com/1#top'', ''https://b.com/2#end'']) \<and>
   enforce_grounded_citations insertion_order (Some ''See https://b.com/2#mid.'')
     [''https://a.com/1#top'', ''https://b.com/2#end''] = [''https://b.com/2''] \<and>
   CHR ''#'' \<notin> set ''https://b.com/2''"
proof -
  have n: "[''https://a.com/1#top'', ''https://b.com/2#end''] \<noteq> []" by simp
  have h: "iterates insertion_order (map split_hash_0 [''https://a.com/1#top'', ''https://b.com/2#end''])"
    by (rule iterates_insertion_order)
  have e: "enforce_grounded_citations insertion_order (Some ''See https://b.com/2#mid.'')
     [''https://a.com/1#top'', ''https://b.com/2#end''] = [''https://b.com/2'']"
    by code_simp
  from grounded_citations_without_fragment[OF n h, of "Some ''See https://b.com/2#mid.''"]
  show ?thesis using h e by simp
qed

text \<open>
  Claim C10: every URL returned by \<open>extract_urls\<close> is a contiguous part of the input
  that begins with \<open>http://\<close> or \<open>https://\<close> in any mix of cases, followed in the input
  by the characters of \<open>.,);]}\<close> that were removed from its right end.
\<close>

theorem extract_urls_substring_of_input:
  "\<forall>u \<in> set (extract_urls text).
     \<exists>t pre tail rest. text = Some t \<and> t = pre @ u @ tail @ rest \<and>
        set tail \<subseteq> set ''.,);]}'' \<and> has_scheme u"
proof
  fix u assume "u \<in> set (extract_urls text)"
  from extract_urls_member[OF this] obtain t p m where
    t: "text = Some t" and pm: "(p, m) \<in> set (finditer 0 t)" and u: "u = rstrip ''.,);]}'' m"
    by blast
  from finditer_located[OF pm] obtain pre rest where loc: "t = pre @ m @ rest" by blast
  from rstrip_decompose[of m "''.,);]}''"] obtain tail where
    tail: "m = u @ tail" "set tail \<subseteq> set ''.,);]}''" unfolding u by blast
  have "has_scheme u" unfolding u by (rule finditer_scheme[OF pm])
  moreover have "t = pre @ u @ tail @ rest" using loc tail(1) by simp
  ultimately show "\<exists>t pre tail rest. text = Some t \<and> t = pre @ u @ tail @ rest \<and>
        set tail \<subseteq> set ''.,);]}'' \<and> has_scheme u"
    using t tail(2) by blast
qed

text \<open>The statement above at a concrete input.\<close>

theorem extract_urls_substring_of_input_witness:
  "\<exists>pre tail rest. ''Visit HTTPS://x.com/page.),  bye'' = pre @ ''HTTPS://x.com/page'' @ tail @ rest \<and>
        set tail \<subseteq> set ''.,);]}'' \<and> has_scheme ''HTTPS://x.com/page''"
proof -
  have e: "extract_urls (Some ''Visit HTTPS://x.com/page.),  bye'') = [''HTTPS://x.com/page'']"
    by code_simp
  show ?thesis
    using extract_urls_substring_of_input[of "Some ''Visit HTTPS://x.com/page.),  bye''"]
    unfolding e by simp
qed

end
